theory Spec2Isabelle
  imports Main
begin

section \<open>Values received on the wire\<close>

text \<open>
  The dashboard (\<^verbatim>\<open>src/frontend/src/App.js\<close>, and the earlier variant kept as
  \<^verbatim>\<open>src/unnamed/part_000\<close>) receives JSON text over a WebSocket. A flow is whatever
  \<^verbatim>\<open>message.data\<close> holds: the handler never inspects it beyond the truthiness of
  \<^verbatim>\<open>newFlow.leakType\<close>, so a flow is an arbitrary JavaScript value here. Numbers are
  integers (JavaScript represents them exactly below \<open>2^53\<close>); an object is an association
  list in which the first binding of a key is the property's value.
\<close>

datatype jsval =
    JUndefined
  | JNull
  | JBool bool
  | JNum int
  | JStr string
  | JArr "jsval list"
  | JObj "(string \<times> jsval) list"

datatype error = TypeError

text \<open>The condition of \<^verbatim>\<open>v ? a : b\<close> and \<^verbatim>\<open>if (v)\<close>.\<close>

fun truthy :: "jsval \<Rightarrow> bool" where
  "truthy JUndefined = False"
| "truthy JNull = False"
| "truthy (JBool b) = b"
| "truthy (JNum n) = (n \<noteq> 0)"
| "truthy (JStr s) = (s \<noteq> [])"
| "truthy (JArr xs) = True"
| "truthy (JObj kvs) = True"

text \<open>
  The property read \<^verbatim>\<open>v.leakType\<close>: a TypeError on \<^verbatim>\<open>undefined\<close> and
  \<^verbatim>\<open>null\<close>, the own property of an object, and \<^verbatim>\<open>undefined\<close> on every other
  value (\<^verbatim>\<open>leakType\<close> is no built-in property of a string, number, boolean or array).
\<close>

fun leakType :: "jsval \<Rightarrow> error + jsval" where
  "leakType JUndefined = Inl TypeError"
| "leakType JNull = Inl TypeError"
| "leakType (JObj kvs) = Inr (case map_of kvs ''leakType'' of None \<Rightarrow> JUndefined | Some v \<Rightarrow> v)"
| "leakType v = Inr JUndefined"

section \<open>The aggregation state\<close>

text \<open>
  \<^verbatim>\<open>useState({ totalFlows: 0, totalLeaks: 0, recentFlows: [], privacyLeaks: [] })\<close>.
  A \<^verbatim>\<open>stats_update\<close> installs \<^verbatim>\<open>message.data\<close> as the new \<^verbatim>\<open>stats\<close>
  object, so the record is also the shape of that payload: numeric counters, and two
  sequence fields that are arrays when the payload has them and \<^verbatim>\<open>undefined\<close>
  (\<open>None\<close>) when it does not. Payloads of any other shape are outside this model.
\<close>

record stats =
  totalFlows :: int
  totalLeaks :: int
  recentFlows :: "jsval list option"
  privacyLeaks :: "jsval list option"

definition empty_stats :: stats where
  "empty_stats = \<lparr>totalFlows = 0, totalLeaks = 0, recentFlows = Some [], privacyLeaks = Some []\<rparr>"

text \<open>
  The outcome of \<^verbatim>\<open>JSON.parse(event.data)\<close> followed by the two tests on
  \<^verbatim>\<open>message.type\<close>: the parse throws (\<open>Malformed\<close>), or it yields a message that is a
  \<^verbatim>\<open>stats_update\<close>, a \<^verbatim>\<open>new_traffic\<close> (with \<^verbatim>\<open>message.data\<close>,
  \<open>JUndefined\<close> when the key is absent), or anything else (\<open>Untyped\<close>: another or no
  \<^verbatim>\<open>type\<close>, or a value such as \<^verbatim>\<open>null\<close> whose \<^verbatim>\<open>.type\<close> throws).
\<close>

datatype message = StatsUpdate stats | NewTraffic jsval | Untyped

datatype frame = Malformed | Json message

section \<open>The message handler of App.js\<close>

text \<open>
  The component state of \<^verbatim>\<open>App.js\<close> (lines 30-41). \<^verbatim>\<open>allFlows\<close> is the list
  the tables render as the recent flows; \<^verbatim>\<open>stats.recentFlows\<close> is only ever copied.
  \<^verbatim>\<open>ws\<close> names the socket object by its number.
\<close>

record app =
  isConnected :: bool
  isListening :: bool
  stats :: stats
  allFlows :: "jsval list"
  ws :: "nat option"
  connectionAttempts :: nat
  lastUpdate :: "nat option"

definition init_app :: app where
  "init_app = \<lparr>isConnected = False, isListening = True, stats = empty_stats, allFlows = [],
     ws = None, connectionAttempts = 0, lastUpdate = None\<rparr>"

text \<open>
  The updater given to \<^verbatim>\<open>setStats\<close> on a \<^verbatim>\<open>new_traffic\<close> (lines 74-81).
  \<^verbatim>\<open>newFlow.leakType\<close> throws on a nullish flow, and the spread
  \<^verbatim>\<open>...prev.privacyLeaks\<close> throws when the field is \<^verbatim>\<open>undefined\<close>.
\<close>

definition stats_updater :: "jsval \<Rightarrow> stats \<Rightarrow> error + stats" where
  "stats_updater newFlow prev =
     (case leakType newFlow of
        Inl e \<Rightarrow> Inl e
      | Inr lt \<Rightarrow>
          if truthy lt then
            (case privacyLeaks prev of
               None \<Rightarrow> Inl TypeError
             | Some leaks \<Rightarrow>
                 Inr (prev\<lparr>totalFlows := totalFlows prev + 1,
                           totalLeaks := totalLeaks prev + 1,
                           privacyLeaks := Some (take 50 (newFlow # leaks))\<rparr>))
          else
            Inr (prev\<lparr>totalFlows := totalFlows prev + 1,
                      totalLeaks := totalLeaks prev,
                      privacyLeaks := privacyLeaks prev\<rparr>))"

text \<open>The updater given to \<^verbatim>\<open>setAllFlows\<close> (line 71).\<close>

definition allFlows_updater :: "jsval \<Rightarrow> jsval list \<Rightarrow> jsval list" where
  "allFlows_updater newFlow prev = take 100 (newFlow # prev)"

text \<open>
  \<^verbatim>\<open>websocket.onmessage\<close> (lines 58-91), given the clock reading of
  \<^verbatim>\<open>new Date()\<close>. Everything the handler itself throws is caught and logged, and
  what it had set before stays set. The two updaters run when React applies them, outside
  the \<^verbatim>\<open>try\<close>: an updater that throws leaves no next state (\<open>Inl\<close>). The
  \<^verbatim>\<open>if (newFlow.leakType)\<close> of line 84 only logs; on a nullish flow it throws into
  the \<^verbatim>\<open>catch\<close> after both updaters were handed over.
\<close>

definition onmessage :: "app \<Rightarrow> nat \<Rightarrow> frame \<Rightarrow> error + app" where
  "onmessage a now fr =
     (case fr of
        Malformed \<Rightarrow> Inr a
      | Json m \<Rightarrow>
          (let a1 = a\<lparr>lastUpdate := Some now\<rparr> in
           case m of
             StatsUpdate d \<Rightarrow>
               Inr (a1\<lparr>stats := d,
                        allFlows := (case recentFlows d of None \<Rightarrow> [] | Some fs \<Rightarrow> fs)\<rparr>)
           | NewTraffic newFlow \<Rightarrow>
               (case stats_updater newFlow (stats a1) of
                  Inl e \<Rightarrow> Inl e
                | Inr s \<Rightarrow>
                    Inr (a1\<lparr>allFlows := allFlows_updater newFlow (allFlows a1), stats := s\<rparr>))
           | Untyped \<Rightarrow> Inr a1))"

text \<open>Messages are handled one after the other; a failed updater ends the run.\<close>

fun onmessages :: "app \<Rightarrow> (nat \<times> frame) list \<Rightarrow> error + app" where
  "onmessages a [] = Inr a"
| "onmessages a ((now, fr) # rest) =
     (case onmessage a now fr of Inl e \<Rightarrow> Inl e | Inr a' \<Rightarrow> onmessages a' rest)"

text \<open>A \<^verbatim>\<open>new_traffic\<close> message carrying the flow \<open>f\<close>, received at time \<open>now\<close>.\<close>

definition new_traffic :: "nat \<times> jsval \<Rightarrow> nat \<times> frame" where
  "new_traffic p = (fst p, Json (NewTraffic (snd p)))"

text \<open>The flow is a value one can read a property of, and the handler's test on it.\<close>

definition is_flow :: "jsval \<Rightarrow> bool" where
  "is_flow f = (f \<noteq> JUndefined \<and> f \<noteq> JNull)"

definition has_leak :: "jsval \<Rightarrow> bool" where
  "has_leak f = (case leakType f of Inl e \<Rightarrow> False | Inr lt \<Rightarrow> truthy lt)"

section \<open>The message handler of the earlier variant\<close>

text \<open>
  \<^verbatim>\<open>src/unnamed/part_000\<close> keeps four state variables (lines 31-39) and has no
  \<^verbatim>\<open>lastUpdate\<close>. Its updaters are lines 63 and 66-73, its handler lines 53-78.
\<close>

record app0 =
  isConnected0 :: bool
  stats0 :: stats
  allFlows0 :: "jsval list"
  ws0 :: "nat option"

definition init_app0 :: app0 where
  "init_app0 = \<lparr>isConnected0 = False, stats0 = empty_stats, allFlows0 = [], ws0 = None\<rparr>"

definition stats_updater0 :: "jsval \<Rightarrow> stats \<Rightarrow> error + stats" where
  "stats_updater0 newFlow prev =
     (case leakType newFlow of
        Inl e \<Rightarrow> Inl e
      | Inr lt \<Rightarrow>
          if truthy lt then
            (case privacyLeaks prev of
               None \<Rightarrow> Inl TypeError
             | Some leaks \<Rightarrow>
                 Inr (prev\<lparr>totalFlows := totalFlows prev + 1,
                           totalLeaks := totalLeaks prev + 1,
                           privacyLeaks := Some (take 50 (newFlow # leaks))\<rparr>))
          else
            Inr (prev\<lparr>totalFlows := totalFlows prev + 1,
                      totalLeaks := totalLeaks prev,
                      privacyLeaks := privacyLeaks prev\<rparr>))"

definition allFlows_updater0 :: "jsval \<Rightarrow> jsval list \<Rightarrow> jsval list" where
  "allFlows_updater0 newFlow prev = take 100 (newFlow # prev)"

definition onmessage0 :: "app0 \<Rightarrow> frame \<Rightarrow> error + app0" where
  "onmessage0 a fr =
     (case fr of
        Malformed \<Rightarrow> Inr a
      | Json (StatsUpdate d) \<Rightarrow>
          Inr (a\<lparr>stats0 := d,
                  allFlows0 := (case recentFlows d of None \<Rightarrow> [] | Some fs \<Rightarrow> fs)\<rparr>)
      | Json (NewTraffic newFlow) \<Rightarrow>
          (case stats_updater0 newFlow (stats0 a) of
             Inl e \<Rightarrow> Inl e
           | Inr s \<Rightarrow>
               Inr (a\<lparr>allFlows0 := allFlows_updater0 newFlow (allFlows0 a), stats0 := s\<rparr>))
      | Json Untyped \<Rightarrow> Inr a)"

text \<open>What the two variants have in common: the counters and the two lists.\<close>

definition aggregation :: "app \<Rightarrow> stats \<times> jsval list" where
  "aggregation a = (stats a, allFlows a)"

definition aggregation0 :: "app0 \<Rightarrow> stats \<times> jsval list" where
  "aggregation0 a = (stats0 a, allFlows0 a)"

section \<open>Clearing\<close>

text \<open>
  \<^verbatim>\<open>clearData\<close> (App.js, lines 135-148) posts to the backend and resets the local
  state only when the response is ok; a failed request is logged.
\<close>

datatype response = Ok | NotOk | Failed

definition clearData :: "response \<Rightarrow> app \<Rightarrow> app" where
  "clearData r a =
     (case r of
        Ok \<Rightarrow> a\<lparr>stats := \<lparr>totalFlows = 0, totalLeaks = 0, recentFlows = Some [],
                            privacyLeaks = Some []\<rparr>,
                 allFlows := []\<rparr>
      | NotOk \<Rightarrow> a
      | Failed \<Rightarrow> a)"

section \<open>The connection manager of App.js\<close>

text \<open>
  Every render of \<^verbatim>\<open>App\<close> binds \<^verbatim>\<open>isListening\<close> and
  \<^verbatim>\<open>connectionAttempts\<close> as constants. \<^verbatim>\<open>useCallback\<close> with the dependencies
  \<^verbatim>\<open>[isListening, connectionAttempts]\<close> makes a new \<^verbatim>\<open>connectWebSocket\<close>
  whenever one of the two changed, and that function, the handlers it installs on the
  socket and the timer callback they schedule all read the two constants of the render
  that made them, and call that same \<^verbatim>\<open>connectWebSocket\<close>. A \<open>scope\<close> is this pair
  of captured values; state setters always act on the current state.
\<close>

record scope =
  listening :: bool
  attempts :: nat

datatype ready = CONNECTING | OPEN | CLOSING

record socket =
  sid :: nat
  made_in :: scope
  readyState :: ready

text \<open>
  The component together with what lives outside it: the sockets that were created and
  have not yet seen their close event, the pending \<^verbatim>\<open>setTimeout\<close> callbacks (delay
  in ms and the scope of the callback), whether \<^verbatim>\<open>new WebSocket(websocketUrl)\<close>
  accepts the configured URL, and for the effect of lines 150-160 the scope it last ran in
  and the \<^verbatim>\<open>ws\<close> its cleanup captured.
\<close>

record world =
  app :: app
  sockets :: "socket list"
  timers :: "(nat \<times> scope) list"
  fresh :: nat
  url_ok :: bool
  effect_scope :: scope
  effect_ws :: "nat option"

definition set_app :: "(app \<Rightarrow> app) \<Rightarrow> world \<Rightarrow> world" where
  "set_app f w = w\<lparr>app := f (app w)\<rparr>"

text \<open>\<^verbatim>\<open>s.close()\<close>: the socket starts closing; its close event comes later.\<close>

definition close :: "nat \<Rightarrow> world \<Rightarrow> world" where
  "close s w =
     w\<lparr>sockets := map (\<lambda>k. if sid k = s then k\<lparr>readyState := CLOSING\<rparr> else k) (sockets w)\<rparr>"

text \<open>\<^verbatim>\<open>connectWebSocket\<close> (lines 43-118) as made in the scope \<open>sc\<close>.\<close>

definition connectWebSocket :: "scope \<Rightarrow> world \<Rightarrow> world" where
  "connectWebSocket sc w =
     (if \<not> listening sc then w
      else if \<not> url_ok w then set_app (\<lambda>a. a\<lparr>isConnected := False\<rparr>) w
      else
        set_app (\<lambda>a. a\<lparr>ws := Some (fresh w)\<rparr>)
          (w\<lparr>sockets := sockets w @ [\<lparr>sid = fresh w, made_in = sc, readyState = CONNECTING\<rparr>],
             fresh := Suc (fresh w)\<rparr>))"

text \<open>\<^verbatim>\<open>websocket.onopen\<close> (lines 52-56).\<close>

definition onopen :: "world \<Rightarrow> world" where
  "onopen w = set_app (\<lambda>a. a\<lparr>isConnected := True, connectionAttempts := 0\<rparr>) w"

text \<open>\<^verbatim>\<open>Math.min(1000 * Math.pow(2, connectionAttempts), 30000)\<close>.\<close>

definition delay :: "nat \<Rightarrow> nat" where
  "delay n = min (1000 * 2 ^ n) 30000"

text \<open>\<^verbatim>\<open>websocket.onclose\<close> (lines 93-106) of a socket made in the scope \<open>sc\<close>.\<close>

definition onclose :: "scope \<Rightarrow> world \<Rightarrow> world" where
  "onclose sc w =
     (let w1 = set_app (\<lambda>a. a\<lparr>isConnected := False\<rparr>) w in
      if listening sc \<and> attempts sc < 5
      then w1\<lparr>timers := timers w1 @ [(delay (attempts sc), sc)]\<rparr>
      else w1)"

text \<open>\<^verbatim>\<open>websocket.onerror\<close> (lines 108-111).\<close>

definition onerror :: "world \<Rightarrow> world" where
  "onerror w = set_app (\<lambda>a. a\<lparr>isConnected := False\<rparr>) w"

text \<open>The callback given to \<^verbatim>\<open>setTimeout\<close> (lines 101-104), made in the scope \<open>sc\<close>.\<close>

definition timeout :: "scope \<Rightarrow> world \<Rightarrow> world" where
  "timeout sc w =
     connectWebSocket sc
       (set_app (\<lambda>a. a\<lparr>connectionAttempts := connectionAttempts a + 1\<rparr>) w)"

text \<open>The scope of the current render.\<close>

definition current :: "world \<Rightarrow> scope" where
  "current w = \<lparr>listening = isListening (app w), attempts = connectionAttempts (app w)\<rparr>"

text \<open>
  \<^verbatim>\<open>toggleListening\<close> (lines 120-133). It is made anew by every render, so its
  \<^verbatim>\<open>ws\<close> and \<^verbatim>\<open>connectWebSocket\<close> are the current ones; on resume that
  \<^verbatim>\<open>connectWebSocket\<close> still sees \<^verbatim>\<open>isListening\<close> as false.
\<close>

definition toggleListening :: "world \<Rightarrow> world" where
  "toggleListening w =
     (let prev = isListening (app w); newListening = \<not> prev in
      if \<not> newListening \<and> ws (app w) \<noteq> None then
        (case ws (app w) of
           None \<Rightarrow> w
         | Some s \<Rightarrow>
             set_app (\<lambda>a. a\<lparr>ws := None, isConnected := False, isListening := newListening\<rparr>)
               (close s w))
      else if newListening then
        set_app (\<lambda>a. a\<lparr>isListening := newListening\<rparr>)
          (connectWebSocket (current w)
             (set_app (\<lambda>a. a\<lparr>connectionAttempts := 0\<rparr>) w))
      else set_app (\<lambda>a. a\<lparr>isListening := newListening\<rparr>) w)"

text \<open>
  The effect of lines 150-160 has the dependencies \<^verbatim>\<open>[connectWebSocket, isListening]\<close>.
  After a handler has run, React renders; when the scope differs from the one the effect
  last ran in, the old cleanup closes the \<^verbatim>\<open>ws\<close> it captured, and the effect runs
  again with the \<^verbatim>\<open>connectWebSocket\<close> and the \<^verbatim>\<open>ws\<close> of this render.
\<close>

definition render :: "world \<Rightarrow> world" where
  "render w =
     (if current w = effect_scope w then w
      else
        (let w1 = (case effect_ws w of None \<Rightarrow> w | Some s \<Rightarrow> close s w);
             w2 = (if isListening (app w1) then connectWebSocket (current w1) w1 else w1)
         in w2\<lparr>effect_scope := current w, effect_ws := ws (app w)\<rparr>))"

text \<open>The first render and its effect.\<close>

definition boot :: "bool \<Rightarrow> world" where
  "boot ok =
     (let w = \<lparr>app = init_app, sockets = [], timers = [], fresh = 0, url_ok = ok,
               effect_scope = \<lparr>listening = True, attempts = 0\<rparr>, effect_ws = None\<rparr>
      in if isListening (app w) then connectWebSocket (current w) w else w)"

text \<open>
  What can happen next: a socket opens, closes, reports an error or delivers a message, a
  timer fires, the user clicks one of the two buttons (the clear request ending in one of its
  three ways). An event for a socket or timer that does not exist changes nothing.
\<close>

datatype event =
    Opened nat
  | Closed nat
  | Errored nat
  | Received nat nat frame
  | TimerFired nat
  | ToggleClick
  | ClearClick response

definition find_socket :: "nat \<Rightarrow> world \<Rightarrow> socket option" where
  "find_socket s w = find (\<lambda>k. sid k = s) (sockets w)"

definition handle :: "world \<Rightarrow> event \<Rightarrow> error + world" where
  "handle w ev =
     (case ev of
        Opened s \<Rightarrow>
          (case find_socket s w of
             None \<Rightarrow> Inr w
           | Some k \<Rightarrow>
               if readyState k = CONNECTING then
                 Inr (onopen (w\<lparr>sockets := map (\<lambda>k. if sid k = s then k\<lparr>readyState := OPEN\<rparr> else k)
                                              (sockets w)\<rparr>))
               else Inr w)
      | Closed s \<Rightarrow>
          (case find_socket s w of
             None \<Rightarrow> Inr w
           | Some k \<Rightarrow>
               Inr (onclose (made_in k) (w\<lparr>sockets := filter (\<lambda>k. sid k \<noteq> s) (sockets w)\<rparr>)))
      | Errored s \<Rightarrow>
          (case find_socket s w of None \<Rightarrow> Inr w | Some k \<Rightarrow> Inr (onerror w))
      | Received s now fr \<Rightarrow>
          (case find_socket s w of
             None \<Rightarrow> Inr w
           | Some k \<Rightarrow>
               if readyState k = OPEN then
                 (case onmessage (app w) now fr of
                    Inl e \<Rightarrow> Inl e
                  | Inr a \<Rightarrow> Inr (w\<lparr>app := a\<rparr>))
               else Inr w)
      | TimerFired i \<Rightarrow>
          (if i < length (timers w)
           then Inr (timeout (snd (timers w ! i))
                       (w\<lparr>timers := take i (timers w) @ drop (Suc i) (timers w)\<rparr>))
           else Inr w)
      | ToggleClick \<Rightarrow> Inr (toggleListening w)
      | ClearClick r \<Rightarrow> Inr (set_app (clearData r) w))"

definition step :: "world \<Rightarrow> event \<Rightarrow> error + world" where
  "step w ev = (case handle w ev of Inl e \<Rightarrow> Inl e | Inr w' \<Rightarrow> Inr (render w'))"

fun run :: "world \<Rightarrow> event list \<Rightarrow> error + world" where
  "run w [] = Inr w"
| "run w (ev # evs) = (case step w ev of Inl e \<Rightarrow> Inl e | Inr w' \<Rightarrow> run w' evs)"

text \<open>
  The scenario of the specification: three flows arrive, the second one tagged
  \<^verbatim>\<open>GPS_DATA\<close>.
\<close>

definition scenario :: "(nat \<times> jsval) list" where
  "scenario =
     [(1, JObj [(''flowId'', JStr ''f1''), (''method'', JStr ''GET'')]),
      (2, JObj [(''flowId'', JStr ''f2''), (''method'', JStr ''POST''),
                (''leakType'', JStr ''GPS_DATA''), (''leakDetail'', JStr ''lat/lon in body'')]),
      (3, JObj [(''flowId'', JStr ''f3''), (''method'', JStr ''GET''), (''leakType'', JNull)])]"

text \<open>The same sequential handling for the earlier variant.\<close>

fun onmessages0 :: "app0 \<Rightarrow> frame list \<Rightarrow> error + app0" where
  "onmessages0 a [] = Inr a"
| "onmessages0 a (fr # rest) =
     (case onmessage0 a fr of Inl e \<Rightarrow> Inl e | Inr a' \<Rightarrow> onmessages0 a' rest)"

section \<open>Properties of the state and sample payloads\<close>

text \<open>The invariant on the counters.\<close>

definition leaks_le_flows :: "stats \<Rightarrow> bool" where
  "leaks_le_flows s = (totalLeaks s \<le> totalFlows s)"

text \<open>A \<^verbatim>\<open>stats_update\<close> payload that carries 101 recent flows and 51 leaks.\<close>

definition over_caps :: stats where
  "over_caps =
     \<lparr>totalFlows = 101, totalLeaks = 51,
      recentFlows = Some (replicate 101 (JObj [(''flowId'', JStr ''f'')])),
      privacyLeaks = Some (replicate 51 (JObj [(''flowId'', JStr ''f''),
                                               (''leakType'', JStr ''TRACKING'')]))\<rparr>"

text \<open>
  \<^verbatim>\<open>{"totalFlows": 1, "totalLeaks": 0, "recentFlows": [...]}\<close>: a payload with numeric
  counters and no \<^verbatim>\<open>privacyLeaks\<close>.
\<close>

definition without_privacyLeaks :: stats where
  "without_privacyLeaks =
     \<lparr>totalFlows = 1, totalLeaks = 0, recentFlows = Some [snd (scenario ! 0)],
      privacyLeaks = None\<rparr>"

text \<open>A payload whose counters break the invariant.\<close>

definition more_leaks_than_flows :: stats where
  "more_leaks_than_flows =
     \<lparr>totalFlows = 0, totalLeaks = 5, recentFlows = Some [], privacyLeaks = Some []\<rparr>"

text \<open>What the connection manager owns: the four state variables, the sockets, the timers.\<close>

definition connection ::
  "world \<Rightarrow> bool \<times> bool \<times> nat option \<times> nat \<times> socket list \<times> (nat \<times> scope) list" where
  "connection w =
     (isConnected (app w), isListening (app w), ws (app w), connectionAttempts (app w),
      sockets w, timers w)"

text \<open>The world after the first socket has opened.\<close>

definition connected :: world where
  "connected =
     \<lparr>app = init_app\<lparr>isConnected := True, ws := Some 0\<rparr>,
      sockets = [\<lparr>sid = 0, made_in = \<lparr>listening = True, attempts = 0\<rparr>, readyState = OPEN\<rparr>],
      timers = [], fresh = 1, url_ok = True,
      effect_scope = \<lparr>listening = True, attempts = 0\<rparr>, effect_ws = None\<rparr>"

text \<open>
  The backend is down: the first socket and every later one fails. The events follow the
  clock: the close of socket 0, the 1 s timer, the closes of sockets 1 and 2, the next 1 s
  timer, and so on; when the last event of the list has happened, five timers have fired
  and eleven sockets have failed.
\<close>

definition five_failures :: "event list" where
  "five_failures =
     [Closed 0, TimerFired 0, Closed 1, Closed 2, TimerFired 0, Closed 3, Closed 4,
      TimerFired 0, TimerFired 0, Closed 5, Closed 6, Closed 7, Closed 8,
      TimerFired 3, Closed 9, Closed 10]"

text \<open>
  The world in the middle of reconnecting: one attempt has been counted, socket 2 is
  connecting and a timer is pending.
\<close>

definition reconnecting :: world where
  "reconnecting =
     \<lparr>app = init_app\<lparr>ws := Some 2, connectionAttempts := 1\<rparr>,
      sockets = [\<lparr>sid = 2, made_in = \<lparr>listening = True, attempts = 1\<rparr>,
                  readyState = CONNECTING\<rparr>],
      timers = [(1000, \<lparr>listening = True, attempts = 0\<rparr>)],
      fresh = 3, url_ok = True,
      effect_scope = \<lparr>listening = True, attempts = 1\<rparr>, effect_ws = Some 1\<rparr>"

section \<open>Evaluating the model\<close>

text \<open>The definitions that make up one step of the connection manager.\<close>

lemmas machine =
  step_def handle_def find_socket_def onopen_def onclose_def onerror_def timeout_def
  toggleListening_def render_def current_def connectWebSocket_def close_def set_app_def
  delay_def boot_def init_app_def empty_stats_def Let_def

section \<open>Incremental events\<close>

lemma take_append_take: "take n (xs @ take n ys) = take n (xs @ ys)"
  by (simp add: min_def)

lemma has_leak_is_flow: "has_leak f \<Longrightarrow> is_flow f"
  by (cases f) (simp_all add: has_leak_def is_flow_def)

text \<open>
  An object carries a leak when it has a \<^verbatim>\<open>leakType\<close> that is truthy: a tag such as
  \<^verbatim>\<open>"GPS_DATA"\<close> does, while \<^verbatim>\<open>null\<close> and the empty string do not.
\<close>

lemma has_leak_object:
  "has_leak (JObj kvs) = (case map_of kvs ''leakType'' of None \<Rightarrow> False | Some v \<Rightarrow> truthy v)"
  by (simp add: has_leak_def split: option.splits)

text \<open>On a flow, and with a leak list in place, the updater of \<^verbatim>\<open>stats\<close> succeeds.\<close>

lemma stats_updater_flow:
  assumes "is_flow f" and "privacyLeaks s = Some leaks"
  shows "stats_updater f s =
           Inr (s\<lparr>totalFlows := totalFlows s + 1,
                  totalLeaks := totalLeaks s + (if has_leak f then 1 else 0),
                  privacyLeaks := Some (if has_leak f then take 50 (f # leaks) else leaks)\<rparr>)"
  using assms
  by (cases f) (simp_all add: stats_updater_def is_flow_def has_leak_def)

lemma onmessage_flow:
  assumes "is_flow f" and "privacyLeaks (stats a) = Some leaks"
  shows "onmessage a now (Json (NewTraffic f)) =
           Inr (a\<lparr>lastUpdate := Some now,
                  allFlows := take 100 (f # allFlows a),
                  stats := (stats a)\<lparr>totalFlows := totalFlows (stats a) + 1,
                     totalLeaks := totalLeaks (stats a) + (if has_leak f then 1 else 0),
                     privacyLeaks := Some (if has_leak f then take 50 (f # leaks) else leaks)\<rparr>\<rparr>)"
  using stats_updater_flow [OF assms(1), of "stats a" leaks] assms(2)
  by (simp add: onmessage_def allFlows_updater_def)

text \<open>
  A run of \<^verbatim>\<open>new_traffic\<close> messages from a state within the caps: it never fails, it
  counts every flow and every leak, and both lists are the newest entries first.
\<close>

lemma onmessages_flows:
  assumes "list_all is_flow (map snd evs)" and "privacyLeaks (stats a) = Some leaks"
    and "length (allFlows a) \<le> 100" and "length leaks \<le> 50"
  shows "\<exists>a'. onmessages a (map new_traffic evs) = Inr a'
           \<and> totalFlows (stats a') = totalFlows (stats a) + int (length evs)
           \<and> totalLeaks (stats a') =
               totalLeaks (stats a) + int (length (filter has_leak (map snd evs)))
           \<and> allFlows a' = take 100 (rev (map snd evs) @ allFlows a)
           \<and> privacyLeaks (stats a') =
               Some (take 50 (rev (filter has_leak (map snd evs)) @ leaks))
           \<and> recentFlows (stats a') = recentFlows (stats a)"
  using assms
proof (induction evs arbitrary: a leaks)
  case Nil
  then show ?case by simp
next
  case (Cons ev evs)
  obtain now f where ev: "ev = (now, f)" by (cases ev)
  from Cons.prems ev have f: "is_flow f" and rest: "list_all is_flow (map snd evs)"
    by simp_all
  let ?leaks = "if has_leak f then take 50 (f # leaks) else leaks"
  let ?a1 = "a\<lparr>lastUpdate := Some now,
                  allFlows := take 100 (f # allFlows a),
                  stats := (stats a)\<lparr>totalFlows := totalFlows (stats a) + 1,
                     totalLeaks := totalLeaks (stats a) + (if has_leak f then 1 else 0),
                     privacyLeaks := Some ?leaks\<rparr>\<rparr>"
  have one: "onmessage a now (Json (NewTraffic f)) = Inr ?a1"
    using onmessage_flow [OF f Cons.prems(2)] .
  have "privacyLeaks (stats ?a1) = Some ?leaks"
    and "length (allFlows ?a1) \<le> 100" and "length ?leaks \<le> 50"
    using Cons.prems(4) by simp_all
  from Cons.IH [OF rest this] obtain a' where
    run: "onmessages ?a1 (map new_traffic evs) = Inr a'"
    and tf: "totalFlows (stats a') = totalFlows (stats ?a1) + int (length evs)"
    and tl: "totalLeaks (stats a') =
               totalLeaks (stats ?a1) + int (length (filter has_leak (map snd evs)))"
    and af: "allFlows a' = take 100 (rev (map snd evs) @ allFlows ?a1)"
    and pl: "privacyLeaks (stats a') =
               Some (take 50 (rev (filter has_leak (map snd evs)) @ ?leaks))"
    and rf: "recentFlows (stats a') = recentFlows (stats ?a1)"
    by blast
  have "onmessages a (map new_traffic (ev # evs)) = Inr a'"
    using one run by (simp add: ev new_traffic_def)
  moreover have "totalFlows (stats a') = totalFlows (stats a) + int (length (ev # evs))"
    using tf by simp
  moreover have "totalLeaks (stats a') =
      totalLeaks (stats a) + int (length (filter has_leak (map snd (ev # evs))))"
    using tl by (simp add: ev)
  moreover have "allFlows a' = take 100 (rev (map snd (ev # evs)) @ allFlows a)"
  proof -
    have "allFlows ?a1 = take 100 (f # allFlows a)" by simp
    then have "take 100 (rev (map snd evs) @ allFlows ?a1) =
          take 100 (rev (map snd evs) @ f # allFlows a)"
      by (simp only: take_append_take)
    then show ?thesis using af by (simp add: ev del: take_append)
  qed
  moreover have "privacyLeaks (stats a') =
      Some (take 50 (rev (filter has_leak (map snd (ev # evs))) @ leaks))"
  proof (cases "has_leak f")
    case True
    then have "take 50 (rev (filter has_leak (map snd evs)) @ ?leaks) =
          take 50 (rev (filter has_leak (map snd evs)) @ f # leaks)"
      by (simp only: if_True take_append_take)
    then show ?thesis using pl True by (simp add: ev del: take_append)
  next
    case False
    then show ?thesis using pl by (simp add: ev del: take_append)
  qed
  moreover have "recentFlows (stats a') = recentFlows (stats a)"
    using rf by simp
  ultimately show ?case by blast
qed

text \<open>From the initial state of the component.\<close>

lemma onmessages_init:
  assumes "list_all is_flow (map snd evs)"
  shows "\<exists>a. onmessages init_app (map new_traffic evs) = Inr a
           \<and> totalFlows (stats a) = int (length evs)
           \<and> totalLeaks (stats a) = int (length (filter has_leak (map snd evs)))
           \<and> allFlows a = take 100 (rev (map snd evs))
           \<and> privacyLeaks (stats a) = Some (take 50 (rev (filter has_leak (map snd evs))))"
proof -
  have i: "totalFlows (stats init_app) = 0" "totalLeaks (stats init_app) = 0"
    "allFlows init_app = []"
    by (simp_all add: init_app_def empty_stats_def)
  have "privacyLeaks (stats init_app) = Some []" and "length (allFlows init_app) \<le> 100"
    and "length ([] :: jsval list) \<le> 50"
    by (simp_all add: init_app_def empty_stats_def)
  from onmessages_flows [OF assms this] obtain a where
    "onmessages init_app (map new_traffic evs) = Inr a"
    "totalFlows (stats a) = totalFlows (stats init_app) + int (length evs)"
    "totalLeaks (stats a) =
       totalLeaks (stats init_app) + int (length (filter has_leak (map snd evs)))"
    "allFlows a = take 100 (rev (map snd evs) @ allFlows init_app)"
    "privacyLeaks (stats a) = Some (take 50 (rev (filter has_leak (map snd evs)) @ []))"
    by blast
  then show ?thesis unfolding i append_Nil2 by simp
qed

section \<open>The two variants agree on the aggregation\<close>

lemma stats_updater_agree: "stats_updater f s = stats_updater0 f s"
  by (simp add: stats_updater_def stats_updater0_def)

lemma onmessage_agree:
  assumes "aggregation a = aggregation0 b"
  shows "map_sum id aggregation (onmessage a now fr) = map_sum id aggregation0 (onmessage0 b fr)"
proof -
  from assms have s: "stats a = stats0 b" and f: "allFlows a = allFlows0 b"
    by (simp_all add: aggregation_def aggregation0_def)
  show ?thesis
  proof (cases fr)
    case Malformed
    then show ?thesis using assms by (simp add: onmessage_def onmessage0_def)
  next
    case (Json m)
    then show ?thesis
      using s f
      by (cases m)
         (auto simp: onmessage_def onmessage0_def aggregation_def aggregation0_def
            stats_updater_agree allFlows_updater_def allFlows_updater0_def
            split: sum.splits)
  qed
qed

lemma onmessages_agree:
  assumes "aggregation a = aggregation0 b"
  shows "map_sum id aggregation (onmessages a evs) =
         map_sum id aggregation0 (onmessages0 b (map snd evs))"
  using assms
proof (induction evs arbitrary: a b)
  case Nil
  then show ?case by simp
next
  case (Cons ev evs)
  obtain now fr where ev: "ev = (now, fr)" by (cases ev)
  from onmessage_agree [OF Cons.prems, of now fr] show ?case
  proof (cases "onmessage a now fr")
    case (Inl e)
    with onmessage_agree [OF Cons.prems, of now fr] show ?thesis
      by (cases "onmessage0 b fr") (simp_all add: ev)
  next
    case (Inr a')
    with onmessage_agree [OF Cons.prems, of now fr] obtain b' where
      b': "onmessage0 b fr = Inr b'" and agg: "aggregation a' = aggregation0 b'"
      by (cases "onmessage0 b fr") simp_all
    from Cons.IH [OF agg] show ?thesis using Inr b' by (simp add: ev)
  qed
qed

lemma init_agree: "aggregation init_app = aggregation0 init_app0"
  by (simp add: aggregation_def aggregation0_def init_app_def init_app0_def)

lemma onmessages0_init:
  assumes "list_all is_flow (map snd evs)"
  shows "\<exists>b. onmessages0 init_app0 (map (snd \<circ> new_traffic) evs) = Inr b
           \<and> totalFlows (stats0 b) = int (length evs)
           \<and> totalLeaks (stats0 b) = int (length (filter has_leak (map snd evs)))
           \<and> allFlows0 b = take 100 (rev (map snd evs))
           \<and> privacyLeaks (stats0 b) = Some (take 50 (rev (filter has_leak (map snd evs))))"
proof -
  from onmessages_init [OF assms] obtain a where
    a: "onmessages init_app (map new_traffic evs) = Inr a"
    and rest: "totalFlows (stats a) = int (length evs)"
      "totalLeaks (stats a) = int (length (filter has_leak (map snd evs)))"
      "allFlows a = take 100 (rev (map snd evs))"
      "privacyLeaks (stats a) = Some (take 50 (rev (filter has_leak (map snd evs))))"
    by blast
  from onmessages_agree [OF init_agree, of "map new_traffic evs"] a
  obtain b where b: "onmessages0 init_app0 (map (snd \<circ> new_traffic) evs) = Inr b"
    and agg: "aggregation a = aggregation0 b"
    by (cases "onmessages0 init_app0 (map (snd \<circ> new_traffic) evs)") simp_all
  from agg have "stats0 b = stats a" and "allFlows0 b = allFlows a"
    by (simp_all add: aggregation_def aggregation0_def)
  with b rest show ?thesis by simp
qed

section \<open>Claims about incremental events\<close>

text \<open>
  C1. For every sequence of \<^verbatim>\<open>new_traffic\<close> events applied from the initial state,
  after each event (that is, after every prefix \<open>take n evs\<close> of the sequence) the list of
  recent flows \<^verbatim>\<open>allFlows\<close> has at most 100 entries and \<^verbatim>\<open>stats.privacyLeaks\<close>
  has at most 50, in \<^verbatim>\<open>App.js\<close> and in the earlier variant alike. The events carry
  flows, that is values other than \<^verbatim>\<open>undefined\<close> and \<^verbatim>\<open>null\<close>.
\<close>

theorem caps_hold_after_each_event:
  assumes "list_all is_flow (map snd evs)"
  shows "\<exists>a b leaks leaks0.
           onmessages init_app (map new_traffic (take n evs)) = Inr a
         \<and> length (allFlows a) \<le> 100
         \<and> privacyLeaks (stats a) = Some leaks \<and> length leaks \<le> 50
         \<and> onmessages0 init_app0 (map (snd \<circ> new_traffic) (take n evs)) = Inr b
         \<and> length (allFlows0 b) \<le> 100
         \<and> privacyLeaks (stats0 b) = Some leaks0 \<and> length leaks0 \<le> 50"
proof -
  from assms have pre: "list_all is_flow (map snd (take n evs))"
    by (auto simp: list_all_iff dest: in_set_takeD)
  from onmessages_init [OF pre] obtain a where
    "onmessages init_app (map new_traffic (take n evs)) = Inr a"
    "allFlows a = take 100 (rev (map snd (take n evs)))"
    "privacyLeaks (stats a) = Some (take 50 (rev (filter has_leak (map snd (take n evs)))))"
    by blast
  moreover from onmessages0_init [OF pre] obtain b where
    "onmessages0 init_app0 (map (snd \<circ> new_traffic) (take n evs)) = Inr b"
    "allFlows0 b = take 100 (rev (map snd (take n evs)))"
    "privacyLeaks (stats0 b) = Some (take 50 (rev (filter has_leak (map snd (take n evs)))))"
    by blast
  ultimately show ?thesis by simp
qed

theorem caps_hold_witness:
  "list_all is_flow (map snd scenario)
   \<and> (\<exists>a b leaks leaks0.
           onmessages init_app (map new_traffic (take 2 scenario)) = Inr a
         \<and> length (allFlows a) \<le> 100
         \<and> privacyLeaks (stats a) = Some leaks \<and> length leaks \<le> 50
         \<and> onmessages0 init_app0 (map (snd \<circ> new_traffic) (take 2 scenario)) = Inr b
         \<and> length (allFlows0 b) \<le> 100
         \<and> privacyLeaks (stats0 b) = Some leaks0 \<and> length leaks0 \<le> 50)"
proof -
  have h: "list_all is_flow (map snd scenario)"
    by (simp add: scenario_def is_flow_def)
  from caps_hold_after_each_event [OF h, of 2] h show ?thesis by blast
qed

text \<open>
  C2. For every sequence of N \<^verbatim>\<open>new_traffic\<close> events, K of which carry a
  \<^verbatim>\<open>leakType\<close> (one the handler's test \<^verbatim>\<open>newFlow.leakType ? ...\<close> accepts),
  applied from the initial state, \<^verbatim>\<open>totalFlows\<close> is N and \<^verbatim>\<open>totalLeaks\<close> is K
  afterwards, in both variants.
\<close>

theorem counters_count:
  assumes "list_all is_flow (map snd evs)"
  shows "\<exists>a b. onmessages init_app (map new_traffic evs) = Inr a
           \<and> totalFlows (stats a) = int (length evs)
           \<and> totalLeaks (stats a) = int (length (filter has_leak (map snd evs)))
           \<and> onmessages0 init_app0 (map (snd \<circ> new_traffic) evs) = Inr b
           \<and> totalFlows (stats0 b) = int (length evs)
           \<and> totalLeaks (stats0 b) = int (length (filter has_leak (map snd evs)))"
  using onmessages_init [OF assms] onmessages0_init [OF assms] by blast


theorem counters_count_witness:
  "list_all is_flow (map snd scenario)
   \<and> (\<exists>a b. onmessages init_app (map new_traffic scenario) = Inr a
           \<and> totalFlows (stats a) = 3 \<and> totalLeaks (stats a) = 1
           \<and> onmessages0 init_app0 (map (snd \<circ> new_traffic) scenario) = Inr b
           \<and> totalFlows (stats0 b) = 3 \<and> totalLeaks (stats0 b) = 1)"
proof -
  have h: "list_all is_flow (map snd scenario)"
    by (simp add: scenario_def is_flow_def)
  have n: "int (length scenario) = 3" "int (length (filter has_leak (map snd scenario))) = 1"
    by (simp_all add: scenario_def has_leak_def)
  from counters_count [OF h] h show ?thesis unfolding n by blast
qed

text \<open>
  C3. Flows are kept newest first, in the order of arrival: when three \<^verbatim>\<open>new_traffic\<close>
  events arrive from the initial state and only the second carries a \<^verbatim>\<open>leakType\<close>,
  the state has \<^verbatim>\<open>totalFlows = 3\<close>, \<^verbatim>\<open>totalLeaks = 1\<close>, the recent flows
  \<open>[3rd, 2nd, 1st]\<close> and the privacy leaks \<open>[2nd]\<close>.
\<close>

theorem three_flows_scenario:
  assumes "is_flow f1" "\<not> has_leak f1" "has_leak f2" "is_flow f3" "\<not> has_leak f3"
  shows "onmessages init_app [new_traffic (t1, f1), new_traffic (t2, f2), new_traffic (t3, f3)] =
           Inr (init_app\<lparr>lastUpdate := Some t3, allFlows := [f3, f2, f1],
                  stats := \<lparr>totalFlows = 3, totalLeaks = 1, recentFlows = Some [],
                             privacyLeaks = Some [f2]\<rparr>\<rparr>)"
proof -
  have f2: "is_flow f2" using assms(3) by (rule has_leak_is_flow)
  let ?a1 = "init_app\<lparr>lastUpdate := Some t1, allFlows := [f1],
               stats := \<lparr>totalFlows = 1, totalLeaks = 0, recentFlows = Some [],
                          privacyLeaks = Some []\<rparr>\<rparr>"
  let ?a2 = "init_app\<lparr>lastUpdate := Some t2, allFlows := [f2, f1],
               stats := \<lparr>totalFlows = 2, totalLeaks = 1, recentFlows = Some [],
                          privacyLeaks = Some [f2]\<rparr>\<rparr>"
  let ?a3 = "init_app\<lparr>lastUpdate := Some t3, allFlows := [f3, f2, f1],
               stats := \<lparr>totalFlows = 3, totalLeaks = 1, recentFlows = Some [],
                          privacyLeaks = Some [f2]\<rparr>\<rparr>"
  have s1: "onmessage init_app t1 (Json (NewTraffic f1)) = Inr ?a1"
    using onmessage_flow [OF assms(1), of init_app "[]" t1] assms(2)
    by (simp add: init_app_def empty_stats_def)
  have s2: "onmessage ?a1 t2 (Json (NewTraffic f2)) = Inr ?a2"
    using onmessage_flow [OF f2, of ?a1 "[]" t2] assms(3)
    by (simp add: init_app_def)
  have s3: "onmessage ?a2 t3 (Json (NewTraffic f3)) = Inr ?a3"
    using onmessage_flow [OF assms(4), of ?a2 "[f2]" t3] assms(5)
    by (simp add: init_app_def)
  show ?thesis
    by (simp only: new_traffic_def fst_conv snd_conv onmessages.simps s1 s2 s3 sum.case)
qed

theorem three_flows_scenario_witness:
  "is_flow (snd (scenario ! 0)) \<and> \<not> has_leak (snd (scenario ! 0))
   \<and> has_leak (snd (scenario ! 1))
   \<and> is_flow (snd (scenario ! 2)) \<and> \<not> has_leak (snd (scenario ! 2))
   \<and> onmessages init_app (map new_traffic scenario) =
         Inr (init_app\<lparr>lastUpdate := Some 3,
                allFlows := [snd (scenario ! 2), snd (scenario ! 1), snd (scenario ! 0)],
                stats := \<lparr>totalFlows = 3, totalLeaks = 1, recentFlows = Some [],
                           privacyLeaks = Some [snd (scenario ! 1)]\<rparr>\<rparr>)"
proof -
  have h: "is_flow (snd (scenario ! 0))" "\<not> has_leak (snd (scenario ! 0))"
    "has_leak (snd (scenario ! 1))"
    "is_flow (snd (scenario ! 2))" "\<not> has_leak (snd (scenario ! 2))"
    by (simp_all add: scenario_def is_flow_def has_leak_def)
  have l: "map new_traffic scenario =
      [new_traffic (1, snd (scenario ! 0)), new_traffic (2, snd (scenario ! 1)),
       new_traffic (3, snd (scenario ! 2))]"
    by (simp add: scenario_def)
  from three_flows_scenario [OF h, of 1 2 3] h show ?thesis unfolding l by blast
qed

section \<open>The two handlers compared\<close>

text \<open>
  C10. The handler of \<^verbatim>\<open>App.js\<close> and the handler of the earlier variant apply every
  decoded message alike: from states with the same counters and lists they reach states
  with the same counters and lists, or both fail in an updater.
\<close>

theorem handlers_agree:
  assumes "aggregation a = aggregation0 b"
  shows "map_sum id aggregation (onmessage a now (Json m)) =
         map_sum id aggregation0 (onmessage0 b (Json m))"
  using assms by (rule onmessage_agree)

theorem handlers_agree_witness:
  "aggregation init_app = aggregation0 init_app0
   \<and> map_sum id aggregation (onmessage init_app 7 (Json (NewTraffic (snd (scenario ! 1))))) =
       Inr (\<lparr>totalFlows = 1, totalLeaks = 1, recentFlows = Some [],
              privacyLeaks = Some [snd (scenario ! 1)]\<rparr>, [snd (scenario ! 1)])
   \<and> map_sum id aggregation0 (onmessage0 init_app0 (Json (NewTraffic (snd (scenario ! 1))))) =
       Inr (\<lparr>totalFlows = 1, totalLeaks = 1, recentFlows = Some [],
              privacyLeaks = Some [snd (scenario ! 1)]\<rparr>, [snd (scenario ! 1)])"
proof -
  have h: "aggregation init_app = aggregation0 init_app0"
    by (simp add: aggregation_def aggregation0_def init_app_def init_app0_def)
  have v: "map_sum id aggregation (onmessage init_app 7 (Json (NewTraffic (snd (scenario ! 1))))) =
       Inr (\<lparr>totalFlows = 1, totalLeaks = 1, recentFlows = Some [],
              privacyLeaks = Some [snd (scenario ! 1)]\<rparr>, [snd (scenario ! 1)])"
    by (simp add: onmessage_def stats_updater_def allFlows_updater_def aggregation_def
          init_app_def empty_stats_def scenario_def)
  from handlers_agree [OF h, of 7 "NewTraffic (snd (scenario ! 1))"] h v show ?thesis
    by simp
qed

section \<open>Snapshots\<close>

text \<open>
  C4, as stated, at a payload with 101 recent flows and 51 leaks: the installed lists have
  101 and 51 entries, not the first 100 and 50.
\<close>

theorem snapshot_not_truncated:
  "onmessage init_app 9 (Json (StatsUpdate over_caps)) =
     Inr (init_app\<lparr>lastUpdate := Some 9, stats := over_caps,
            allFlows := replicate 101 (JObj [(''flowId'', JStr ''f'')])\<rparr>)
   \<and> length (replicate 101 (JObj [(''flowId'', JStr ''f'')])) = 101
   \<and> map_option length (privacyLeaks over_caps) = Some 51"
  by (simp add: onmessage_def over_caps_def)

text \<open>
  C4, amended. A \<^verbatim>\<open>stats_update\<close> replaces whatever the state held: \<^verbatim>\<open>stats\<close>
  becomes the payload as it is, and the recent flows become the payload's
  \<^verbatim>\<open>recentFlows\<close> as they are (the empty list when the payload has none). Nothing
  is truncated.
\<close>

theorem snapshot_installed_verbatim:
  "map_sum id aggregation (onmessage a now (Json (StatsUpdate d))) =
     Inr (d, case recentFlows d of None \<Rightarrow> [] | Some fs \<Rightarrow> fs)
   \<and> map_sum id aggregation0 (onmessage0 b (Json (StatsUpdate d))) =
     Inr (d, case recentFlows d of None \<Rightarrow> [] | Some fs \<Rightarrow> fs)"
  by (simp add: onmessage_def onmessage0_def aggregation_def aggregation0_def)

text \<open>
  C5, at a payload with numeric counters and no \<^verbatim>\<open>privacyLeaks\<close>: the message is
  accepted, but the field stays \<^verbatim>\<open>undefined\<close> in \<^verbatim>\<open>stats\<close> instead of
  becoming the empty list, and the next flow that carries a leak makes the updater of
  \<^verbatim>\<open>stats\<close> throw on \<^verbatim>\<open>...prev.privacyLeaks\<close>.
\<close>

theorem missing_privacyLeaks_stays_undefined:
  "onmessages init_app [(1, Json (StatsUpdate without_privacyLeaks))] =
     Inr (init_app\<lparr>lastUpdate := Some 1, stats := without_privacyLeaks,
            allFlows := [snd (scenario ! 0)]\<rparr>)
   \<and> privacyLeaks without_privacyLeaks = None
   \<and> onmessages init_app
       [(1, Json (StatsUpdate without_privacyLeaks)), new_traffic (scenario ! 1)] =
     Inl TypeError"
  by (simp add: onmessage_def without_privacyLeaks_def new_traffic_def stats_updater_def
        scenario_def)

text \<open>A missing \<^verbatim>\<open>recentFlows\<close> does become the empty list of recent flows (line 66).\<close>

lemma missing_recentFlows_defaults:
  "recentFlows d = None \<Longrightarrow>
     map_sum id allFlows (onmessage a now (Json (StatsUpdate d))) = Inr []"
  by (simp add: onmessage_def)

section \<open>The invariant on the counters\<close>

text \<open>
  C6, as stated, at a \<^verbatim>\<open>stats_update\<close> whose payload has more leaks than flows: the
  invariant holds before and not after.
\<close>

theorem snapshot_breaks_invariant:
  "leaks_le_flows (stats init_app)
   \<and> onmessage init_app 4 (Json (StatsUpdate more_leaks_than_flows)) =
       Inr (init_app\<lparr>lastUpdate := Some 4, stats := more_leaks_than_flows, allFlows := []\<rparr>)
   \<and> \<not> leaks_le_flows more_leaks_than_flows"
  by (simp add: onmessage_def more_leaks_than_flows_def leaks_le_flows_def init_app_def
        empty_stats_def)

lemma stats_updater_invariant:
  "leaks_le_flows s \<Longrightarrow> stats_updater f s = Inr s' \<Longrightarrow> leaks_le_flows s'"
  by (auto simp: stats_updater_def leaks_le_flows_def split: sum.splits if_splits option.splits)

text \<open>
  C6, amended. From a state with \<^verbatim>\<open>totalLeaks \<le> totalFlows\<close>, a
  \<^verbatim>\<open>new_traffic\<close> that is applied and a clear (whatever the backend answers) lead to
  a state with the invariant; a \<^verbatim>\<open>stats_update\<close> leads to a state that has the
  invariant exactly when its payload has it.
\<close>

theorem invariant_preserved:
  assumes "leaks_le_flows (stats a)"
  shows "(case onmessage a now (Json (NewTraffic f)) of
            Inl e \<Rightarrow> True | Inr a' \<Rightarrow> leaks_le_flows (stats a'))
       \<and> leaks_le_flows (stats (clearData r a))
       \<and> (case onmessage a now (Json (StatsUpdate d)) of
            Inl e \<Rightarrow> False | Inr a' \<Rightarrow> leaks_le_flows (stats a') = leaks_le_flows d)"
proof -
  have "case onmessage a now (Json (NewTraffic f)) of
            Inl e \<Rightarrow> True | Inr a' \<Rightarrow> leaks_le_flows (stats a')"
    using stats_updater_invariant [OF assms, of f]
    by (auto simp: onmessage_def Let_def split: sum.splits)
  moreover have "leaks_le_flows (stats (clearData r a))"
    using assms by (cases r) (simp_all add: clearData_def leaks_le_flows_def)
  moreover have "case onmessage a now (Json (StatsUpdate d)) of
            Inl e \<Rightarrow> False | Inr a' \<Rightarrow> leaks_le_flows (stats a') = leaks_le_flows d"
    by (simp add: onmessage_def)
  ultimately show ?thesis by blast
qed

theorem invariant_preserved_witness:
  "leaks_le_flows (stats init_app)
   \<and> onmessage init_app 2 (Json (NewTraffic (snd (scenario ! 1)))) =
       Inr (init_app\<lparr>lastUpdate := Some 2, allFlows := [snd (scenario ! 1)],
              stats := \<lparr>totalFlows = 1, totalLeaks = 1, recentFlows = Some [],
                         privacyLeaks = Some [snd (scenario ! 1)]\<rparr>\<rparr>)
   \<and> (case onmessage init_app 2 (Json (NewTraffic (snd (scenario ! 1)))) of
         Inl e \<Rightarrow> True | Inr a' \<Rightarrow> leaks_le_flows (stats a'))
   \<and> leaks_le_flows (stats (clearData Ok init_app))
   \<and> (case onmessage init_app 2 (Json (StatsUpdate over_caps)) of
         Inl e \<Rightarrow> False | Inr a' \<Rightarrow> leaks_le_flows (stats a') = leaks_le_flows over_caps)"
proof -
  have h: "leaks_le_flows (stats init_app)"
    by (simp add: leaks_le_flows_def init_app_def empty_stats_def)
  have v: "onmessage init_app 2 (Json (NewTraffic (snd (scenario ! 1)))) =
       Inr (init_app\<lparr>lastUpdate := Some 2, allFlows := [snd (scenario ! 1)],
              stats := \<lparr>totalFlows = 1, totalLeaks = 1, recentFlows = Some [],
                         privacyLeaks = Some [snd (scenario ! 1)]\<rparr>\<rparr>)"
    by (simp add: onmessage_def stats_updater_def allFlows_updater_def init_app_def
          empty_stats_def scenario_def)
  from invariant_preserved [OF h, of 2 "snd (scenario ! 1)" Ok over_caps] h v
  show ?thesis by (simp only: simp_thms)
qed

section \<open>Messages that do not decode\<close>

text \<open>
  C7, at \<^verbatim>\<open>{"type": "new_traffic", "data": null}\<close>, a message with an invalid payload,
  received on the open socket. The claim has it discarded, with the state untouched and no
  crash. The \<^verbatim>\<open>try\<close> of the handler catches the TypeError of line 84, but by then both
  updaters are handed over, and the one given to \<^verbatim>\<open>setStats\<close> throws again at
  \<^verbatim>\<open>newFlow.leakType\<close> when React applies it, outside the \<^verbatim>\<open>try\<close>: the component
  is left without a next state, in \<^verbatim>\<open>App.js\<close> and in the earlier variant alike.
\<close>

theorem null_payload_crashes:
  "onmessage init_app 5 (Json (NewTraffic JNull)) = Inl TypeError
   \<and> onmessage0 init_app0 (Json (NewTraffic JNull)) = Inl TypeError
   \<and> step connected (Received 0 5 (Json (NewTraffic JNull))) = Inl TypeError"
  by (simp add: machine connected_def onmessage_def onmessage0_def stats_updater_def
        stats_updater0_def)

text \<open>The same in every state, also when the message has no \<^verbatim>\<open>data\<close> at all.\<close>

lemma nullish_flow_fails:
  "onmessage a now (Json (NewTraffic JNull)) = Inl TypeError"
  "onmessage a now (Json (NewTraffic JUndefined)) = Inl TypeError"
  by (simp_all add: onmessage_def stats_updater_def)

text \<open>
  Nothing validates a payload: \<^verbatim>\<open>{"type": "new_traffic", "data": {"status": "200"}}\<close>,
  which has none of \<^verbatim>\<open>flowId\<close>, \<^verbatim>\<open>method\<close>, \<^verbatim>\<open>host\<close> and \<^verbatim>\<open>url\<close>,
  is counted and listed like any flow.
\<close>

lemma unvalidated_payload_applied:
  "onmessage init_app 3 (Json (NewTraffic (JObj [(''status'', JStr ''200'')]))) =
     Inr (init_app\<lparr>lastUpdate := Some 3, allFlows := [JObj [(''status'', JStr ''200'')]],
            stats := \<lparr>totalFlows = 1, totalLeaks = 0, recentFlows = Some [],
                       privacyLeaks = Some []\<rparr>\<rparr>)"
  by (simp add: onmessage_def stats_updater_def allFlows_updater_def init_app_def
        empty_stats_def)

text \<open>
  A message whose updaters have run has left the connection state, the sockets and the
  timers as they were.
\<close>

lemma onmessage_keeps_connection:
  assumes "onmessage a now fr = Inr a'"
  shows "isConnected a' = isConnected a \<and> isListening a' = isListening a
       \<and> ws a' = ws a \<and> connectionAttempts a' = connectionAttempts a"
proof (cases fr)
  case Malformed
  with assms show ?thesis by (simp add: onmessage_def)
next
  case (Json m)
  with assms show ?thesis
    by (cases m) (auto simp: onmessage_def Let_def split: sum.splits)
qed

lemma handle_Received:
  "handle w (Received s now fr) =
     (case find_socket s w of
        None \<Rightarrow> Inr w
      | Some k \<Rightarrow>
          if readyState k = OPEN then
            (case onmessage (app w) now fr of Inl e \<Rightarrow> Inl e | Inr a \<Rightarrow> Inr (w\<lparr>app := a\<rparr>))
          else Inr w)"
  by (simp add: handle_def)

lemma render_idle: "current w = effect_scope w \<Longrightarrow> render w = w"
  by (simp add: render_def)

lemma received_keeps_connection:
  assumes "current w = effect_scope w" and "step w (Received s now fr) = Inr w'"
  shows "connection w' = connection w \<and> current w' = effect_scope w'"
proof -
  from assms(2) obtain w1 where h: "handle w (Received s now fr) = Inr w1"
    and r: "w' = render w1"
    by (auto simp: step_def split: sum.splits)
  have "w1 = w \<or> (\<exists>a'. onmessage (app w) now fr = Inr a' \<and> w1 = w\<lparr>app := a'\<rparr>)"
    using h unfolding handle_Received by (auto split: option.splits if_splits sum.splits)
  then have c: "connection w1 = connection w \<and> current w1 = current w
      \<and> effect_scope w1 = effect_scope w"
    using onmessage_keeps_connection [of "app w" now fr]
    by (auto simp: connection_def current_def)
  with assms(1) have "render w1 = w1" by (simp add: render_idle)
  with r c assms(1) show ?thesis by simp
qed

lemma step_Malformed:
  assumes "current w = effect_scope w"
  shows "step w (Received s now Malformed) = Inr w"
proof -
  have "handle w (Received s now Malformed) = Inr w"
    unfolding handle_Received by (simp add: onmessage_def split: option.splits)
  then show ?thesis using render_idle [OF assms] by (simp add: step_def)
qed

lemma step_Untyped:
  assumes "current w = effect_scope w"
  shows "step w (Received s now (Json Untyped)) = Inr w
       \<or> step w (Received s now (Json Untyped)) =
           Inr (set_app (\<lambda>a. a\<lparr>lastUpdate := Some now\<rparr>) w)"
proof -
  let ?w1 = "set_app (\<lambda>a. a\<lparr>lastUpdate := Some now\<rparr>) w"
  have "current ?w1 = effect_scope ?w1"
    using assms by (simp add: current_def set_app_def)
  then have r1: "render ?w1 = ?w1" by (rule render_idle)
  have "handle w (Received s now (Json Untyped)) = Inr w
      \<or> handle w (Received s now (Json Untyped)) = Inr ?w1"
    unfolding handle_Received by (simp add: onmessage_def set_app_def split: option.splits)
  then show ?thesis
  proof
    assume "handle w (Received s now (Json Untyped)) = Inr w"
    then show ?thesis using render_idle [OF assms] by (simp add: step_def)
  next
    assume "handle w (Received s now (Json Untyped)) = Inr ?w1"
    then have "step w (Received s now (Json Untyped)) = Inr (render ?w1)"
      by (simp add: step_def)
    then show ?thesis by (simp only: r1 simp_thms)
  qed
qed

text \<open>
  Text that does not parse leaves the whole state as it was, and a parsed message with
  another or no \<^verbatim>\<open>type\<close> leaves the aggregation and the connection as they were
  (\<^verbatim>\<open>App.js\<close> stamps \<^verbatim>\<open>lastUpdate\<close>).
\<close>

lemma malformed_and_untyped_discarded:
  assumes "current w = effect_scope w"
  shows "onmessage a now Malformed = Inr a
       \<and> onmessage a now (Json Untyped) = Inr (a\<lparr>lastUpdate := Some now\<rparr>)
       \<and> onmessage0 b Malformed = Inr b
       \<and> onmessage0 b (Json Untyped) = Inr b
       \<and> step w (Received s now Malformed) = Inr w
       \<and> (step w (Received s now (Json Untyped)) = Inr w
          \<or> step w (Received s now (Json Untyped)) =
              Inr (set_app (\<lambda>a. a\<lparr>lastUpdate := Some now\<rparr>) w))"
proof (intro conjI)
  show "onmessage a now Malformed = Inr a" by (simp add: onmessage_def)
  show "onmessage a now (Json Untyped) = Inr (a\<lparr>lastUpdate := Some now\<rparr>)"
    by (simp add: onmessage_def)
  show "onmessage0 b Malformed = Inr b" by (simp add: onmessage0_def)
  show "onmessage0 b (Json Untyped) = Inr b" by (simp add: onmessage0_def)
  show "step w (Received s now Malformed) = Inr w" using assms by (rule step_Malformed)
  show "step w (Received s now (Json Untyped)) = Inr w
          \<or> step w (Received s now (Json Untyped)) =
              Inr (set_app (\<lambda>a. a\<lparr>lastUpdate := Some now\<rparr>) w)"
    using assms by (rule step_Untyped)
qed

section \<open>The connection manager\<close>

lemma connected_reached: "run (boot True) [Opened 0] = Inr connected"
  by (simp add: machine connected_def)

lemma reconnecting_reached:
  "run (boot True) [Closed 0, TimerFired 0, Closed 1] = Inr reconnecting"
  by (simp add: machine reconnecting_def)

text \<open>
  C8, at the run \<open>five_failures\<close>. The client is listening throughout. After five
  reconnect attempts that all failed the counter shows 5, and five more timers are pending:
  every socket tests the \<^verbatim>\<open>connectionAttempts\<close> of the render that made its
  \<^verbatim>\<open>connectWebSocket\<close>, not the current one, and the timer callback calls that same
  stale \<^verbatim>\<open>connectWebSocket\<close> again. When the next timer fires, the counter becomes 6
  and two more sockets are connecting.
\<close>

theorem retry_limit_not_enforced:
  "run (boot True) five_failures =
     Inr \<lparr>app = init_app\<lparr>ws := Some 10, connectionAttempts := 5\<rparr>,
          sockets = [],
          timers = [(4000, \<lparr>listening = True, attempts = 2\<rparr>),
                    (2000, \<lparr>listening = True, attempts = 1\<rparr>),
                    (8000, \<lparr>listening = True, attempts = 3\<rparr>),
                    (16000, \<lparr>listening = True, attempts = 4\<rparr>),
                    (1000, \<lparr>listening = True, attempts = 0\<rparr>)],
          fresh = 11, url_ok = True,
          effect_scope = \<lparr>listening = True, attempts = 5\<rparr>, effect_ws = Some 9\<rparr>
   \<and> run (boot True) (five_failures @ [TimerFired 1]) =
     Inr \<lparr>app = init_app\<lparr>ws := Some 12, connectionAttempts := 6\<rparr>,
          sockets = [\<lparr>sid = 11, made_in = \<lparr>listening = True, attempts = 1\<rparr>,
                      readyState = CONNECTING\<rparr>,
                     \<lparr>sid = 12, made_in = \<lparr>listening = True, attempts = 6\<rparr>,
                      readyState = CONNECTING\<rparr>],
          timers = [(4000, \<lparr>listening = True, attempts = 2\<rparr>),
                    (8000, \<lparr>listening = True, attempts = 3\<rparr>),
                    (16000, \<lparr>listening = True, attempts = 4\<rparr>),
                    (1000, \<lparr>listening = True, attempts = 0\<rparr>)],
          fresh = 13, url_ok = True,
          effect_scope = \<lparr>listening = True, attempts = 6\<rparr>, effect_ws = Some 11\<rparr>"
  by (simp add: machine five_failures_def)

text \<open>
  The same in general: when a socket made in a scope that was listening and had counted
  fewer than five attempts closes, a reconnect is scheduled whatever the counter says now;
  and when the timer fires, the attempt is counted and a socket is made in that same scope.
\<close>

lemma stale_scope_retries:
  assumes "find_socket s w = Some k" and "listening (made_in k)" and "attempts (made_in k) < 5"
  shows "\<exists>w'. step w (Closed s) = Inr w'
           \<and> (delay (attempts (made_in k)), made_in k) \<in> set (timers w')"
proof -
  let ?w1 = "onclose (made_in k) (w\<lparr>sockets := filter (\<lambda>k. sid k \<noteq> s) (sockets w)\<rparr>)"
  have h: "handle w (Closed s) = Inr ?w1" using assms(1) by (simp add: handle_def)
  have t: "timers ?w1 = timers w @ [(delay (attempts (made_in k)), made_in k)]"
    using assms(2,3) by (simp add: onclose_def set_app_def)
  have "timers (render ?w1) = timers ?w1"
    by (simp add: render_def connectWebSocket_def set_app_def close_def Let_def
          split: option.splits)
  with h t show ?thesis by (simp add: step_def)
qed

lemma stale_scope_reconnects:
  assumes "i < length (timers w)" and "timers w ! i = (d, sc)" and "listening sc" and "url_ok w"
  shows "\<exists>w'. handle w (TimerFired i) = Inr w'
           \<and> connectionAttempts (app w') = connectionAttempts (app w) + 1
           \<and> \<lparr>sid = fresh w, made_in = sc, readyState = CONNECTING\<rparr> \<in> set (sockets w')"
  using assms
  by (simp add: handle_def timeout_def connectWebSocket_def set_app_def)

text \<open>A resume sets the counter to 0, and the effect connects again.\<close>

lemma resume_resets_counter:
  assumes "\<not> isListening (app w)" and "current w = effect_scope w" and "url_ok w"
  shows "\<exists>w'. step w ToggleClick = Inr w'
           \<and> isListening (app w') \<and> connectionAttempts (app w') = 0
           \<and> \<lparr>sid = fresh w, made_in = \<lparr>listening = True, attempts = 0\<rparr>,
                readyState = CONNECTING\<rparr> \<in> set (sockets w')"
proof -
  let ?w1 = "toggleListening w"
  have w1: "?w1 = set_app (\<lambda>a. a\<lparr>isListening := True\<rparr>)
                   (set_app (\<lambda>a. a\<lparr>connectionAttempts := 0\<rparr>) w)"
    using assms(1) by (simp add: toggleListening_def connectWebSocket_def current_def set_app_def)
  have c: "current ?w1 = \<lparr>listening = True, attempts = 0\<rparr>"
    unfolding w1 by (simp add: current_def set_app_def)
  have "listening (effect_scope w) = listening (current w)"
    using assms(2) by simp
  then have "listening (effect_scope w) = False"
    using assms(1) by (simp add: current_def)
  then have e: "listening (effect_scope ?w1) = False"
    unfolding w1 by (simp add: set_app_def)
  have ne: "current ?w1 \<noteq> effect_scope ?w1"
  proof
    assume "current ?w1 = effect_scope ?w1"
    then have "listening (current ?w1) = listening (effect_scope ?w1)" by simp
    with c e show False by simp
  qed
  have "step w ToggleClick = Inr (render ?w1)" by (simp add: step_def handle_def)
  moreover have "isListening (app (render ?w1))" "connectionAttempts (app (render ?w1)) = 0"
    "\<lparr>sid = fresh w, made_in = \<lparr>listening = True, attempts = 0\<rparr>,
                readyState = CONNECTING\<rparr> \<in> set (sockets (render ?w1))"
    using ne assms(3) c unfolding render_def
    by (simp_all add: w1 connectWebSocket_def set_app_def close_def Let_def current_def split: option.splits)
  ultimately show ?thesis by blast
qed

text \<open>
  C9, at two runs that end in a pause. In the first the backend is down and the user pauses
  while socket 2 is connecting and a reconnect timer is pending: the timer still fires
  afterwards, its callback sees the \<^verbatim>\<open>isListening\<close> of its own render, passes the
  guard of line 44 and opens socket 3 although the client is suspended. In the second the
  backend has come back and sockets 2 and 3 are open when the user pauses: the pause closes
  the sockets held in \<^verbatim>\<open>ws\<close> and by the cleanup of the effect, and socket 3 stays
  open. The claim has every live connection closed and no reconnect while suspended.
\<close>

theorem pause_does_not_suspend:
  "run (boot True) [Closed 0, TimerFired 0, Closed 1, ToggleClick, TimerFired 0] =
     Inr \<lparr>app = init_app\<lparr>isListening := False, ws := Some 3, connectionAttempts := 2\<rparr>,
          sockets = [\<lparr>sid = 2, made_in = \<lparr>listening = True, attempts = 1\<rparr>,
                      readyState = CLOSING\<rparr>,
                     \<lparr>sid = 3, made_in = \<lparr>listening = True, attempts = 0\<rparr>,
                      readyState = CONNECTING\<rparr>],
          timers = [], fresh = 4, url_ok = True,
          effect_scope = \<lparr>listening = False, attempts = 2\<rparr>, effect_ws = Some 3\<rparr>
   \<and> run (boot True)
         [Closed 0, TimerFired 0, Opened 2, Opened 3, Closed 1, TimerFired 0, ToggleClick] =
     Inr \<lparr>app = init_app\<lparr>isListening := False, ws := None, connectionAttempts := 1\<rparr>,
          sockets = [\<lparr>sid = 2, made_in = \<lparr>listening = True, attempts = 1\<rparr>,
                      readyState = CLOSING\<rparr>,
                     \<lparr>sid = 3, made_in = \<lparr>listening = True, attempts = 0\<rparr>,
                      readyState = OPEN\<rparr>,
                     \<lparr>sid = 4, made_in = \<lparr>listening = True, attempts = 0\<rparr>,
                      readyState = CLOSING\<rparr>,
                     \<lparr>sid = 5, made_in = \<lparr>listening = True, attempts = 1\<rparr>,
                      readyState = CLOSING\<rparr>],
          timers = [], fresh = 6, url_ok = True,
          effect_scope = \<lparr>listening = False, attempts = 1\<rparr>, effect_ws = None\<rparr>"
  by (simp add: machine)

text \<open>
  The pause itself, taken while connecting with one attempt counted and a timer pending:
  the socket in \<^verbatim>\<open>ws\<close> is closed, the counter still shows 1 and the timer is still
  pending.
\<close>

lemma pause_keeps_counter_and_timers:
  "isListening (app reconnecting) \<and> ws (app reconnecting) = Some 2
   \<and> connectionAttempts (app reconnecting) = 1
   \<and> step reconnecting ToggleClick =
       Inr \<lparr>app = init_app\<lparr>isListening := False, ws := None, connectionAttempts := 1\<rparr>,
            sockets = [\<lparr>sid = 2, made_in = \<lparr>listening = True, attempts = 1\<rparr>,
                        readyState = CLOSING\<rparr>],
            timers = [(1000, \<lparr>listening = True, attempts = 0\<rparr>)],
            fresh = 3, url_ok = True,
            effect_scope = \<lparr>listening = False, attempts = 1\<rparr>, effect_ws = None\<rparr>"
  by (simp add: machine reconnecting_def)

text \<open>
  When that timer fires, its callback counts an attempt and, seeing the
  \<^verbatim>\<open>isListening\<close> of its own render, opens a socket although the user has paused.
\<close>

lemma reconnect_while_suspended:
  "run reconnecting [ToggleClick, TimerFired 0] =
     Inr \<lparr>app = init_app\<lparr>isListening := False, ws := Some 3, connectionAttempts := 2\<rparr>,
          sockets = [\<lparr>sid = 2, made_in = \<lparr>listening = True, attempts = 1\<rparr>,
                      readyState = CLOSING\<rparr>,
                     \<lparr>sid = 3, made_in = \<lparr>listening = True, attempts = 0\<rparr>,
                      readyState = CONNECTING\<rparr>],
          timers = [], fresh = 4, url_ok = True,
          effect_scope = \<lparr>listening = False, attempts = 2\<rparr>, effect_ws = Some 3\<rparr>"
  by (simp add: machine reconnecting_def)

lemma close_keeps:
  "app (close s w) = app w" "timers (close s w) = timers w"
  "effect_scope (close s w) = effect_scope w" "effect_ws (close s w) = effect_ws w"
  "map sid (sockets (close s w)) = map sid (sockets w)"
  by (simp_all add: close_def o_def if_distrib [of sid] cong: if_cong)

lemma close_closes: "\<forall>k \<in> set (sockets (close s w)). sid k = s \<longrightarrow> readyState k = CLOSING"
proof (intro ballI impI)
  fix k assume m: "k \<in> set (sockets (close s w))" and s: "sid k = s"
  from m obtain k0 where "k0 \<in> set (sockets w)"
    and k: "k = (if sid k0 = s then k0\<lparr>readyState := CLOSING\<rparr> else k0)"
    by (auto simp: close_def)
  show "readyState k = CLOSING"
  proof (cases "sid k0 = s")
    case True
    then have "k = k0\<lparr>readyState := CLOSING\<rparr>" using k by simp
    then show ?thesis by simp
  next
    case False
    then have "k = k0" using k by simp
    with False s show ?thesis by simp
  qed
qed

lemma close_keeps_closing:
  assumes "\<forall>k \<in> set (sockets w). sid k = s \<longrightarrow> readyState k = CLOSING"
  shows "\<forall>k \<in> set (sockets (close s' w)). sid k = s \<longrightarrow> readyState k = CLOSING"
proof (intro ballI impI)
  fix k assume m: "k \<in> set (sockets (close s' w))" and s: "sid k = s"
  from m obtain k0 where k0: "k0 \<in> set (sockets w)"
    and k: "k = (if sid k0 = s' then k0\<lparr>readyState := CLOSING\<rparr> else k0)"
    by (auto simp: close_def)
  show "readyState k = CLOSING"
  proof (cases "sid k0 = s'")
    case True
    then have "k = k0\<lparr>readyState := CLOSING\<rparr>" using k by simp
    then show ?thesis by simp
  next
    case False
    then have "k = k0" using k by simp
    with assms k0 s show ?thesis by simp
  qed
qed

lemma toggle_pause:
  assumes "isListening (app w)" and "ws (app w) = Some s"
  shows "toggleListening w =
           set_app (\<lambda>a. a\<lparr>ws := None, isConnected := False, isListening := False\<rparr>) (close s w)"
  using assms by (simp add: toggleListening_def)

lemma render_not_listening:
  assumes "\<not> isListening (app w)"
  shows "render w = w
       \<or> render w = (case effect_ws w of None \<Rightarrow> w | Some s \<Rightarrow> close s w)
                       \<lparr>effect_scope := current w, effect_ws := ws (app w)\<rparr>"
  using assms by (simp add: render_def close_keeps split: option.splits)

text \<open>
  In general, a pause while a socket is recorded in \<^verbatim>\<open>ws\<close> closes that socket at
  once, clears \<^verbatim>\<open>ws\<close>, sets \<^verbatim>\<open>isConnected\<close> and \<^verbatim>\<open>isListening\<close> to
  false and makes no socket; the retry counter keeps its value (the next resume sets it to
  0) and the pending timers stay pending.
\<close>

lemma pause_closes_socket:
  assumes "isListening (app w)" and "ws (app w) = Some s"
  shows "\<exists>w'. step w ToggleClick = Inr w'
           \<and> \<not> isListening (app w') \<and> \<not> isConnected (app w') \<and> ws (app w') = None
           \<and> connectionAttempts (app w') = connectionAttempts (app w)
           \<and> timers w' = timers w
           \<and> map sid (sockets w') = map sid (sockets w)
           \<and> (\<forall>k \<in> set (sockets w'). sid k = s \<longrightarrow> readyState k = CLOSING)"
proof -
  let ?w1 = "toggleListening w"
  have w1: "?w1 = set_app (\<lambda>a. a\<lparr>ws := None, isConnected := False, isListening := False\<rparr>)
                    (close s w)"
    using assms by (rule toggle_pause)
  have a1: "\<not> isListening (app ?w1)" "\<not> isConnected (app ?w1)" "ws (app ?w1) = None"
    "connectionAttempts (app ?w1) = connectionAttempts (app w)"
    "timers ?w1 = timers w" "sockets ?w1 = sockets (close s w)"
    unfolding w1 by (simp_all add: set_app_def close_keeps)
  have c1: "\<forall>k \<in> set (sockets ?w1). sid k = s \<longrightarrow> readyState k = CLOSING"
    unfolding a1(6) by (rule close_closes)
  have st: "step w ToggleClick = Inr (render ?w1)"
    by (simp add: step_def handle_def)
  from render_not_listening [OF a1(1)] show ?thesis
  proof
    assume "render ?w1 = ?w1"
    with st a1 c1 show ?thesis by (simp add: close_keeps)
  next
    assume r: "render ?w1 = (case effect_ws ?w1 of None \<Rightarrow> ?w1 | Some s' \<Rightarrow> close s' ?w1)
                       \<lparr>effect_scope := current ?w1, effect_ws := ws (app ?w1)\<rparr>"
    show ?thesis
    proof (cases "effect_ws ?w1")
      case None
      with r st a1 c1 show ?thesis by (simp add: close_keeps)
    next
      case (Some s')
      with r have r': "render ?w1 = (close s' ?w1)
                       \<lparr>effect_scope := current ?w1, effect_ws := ws (app ?w1)\<rparr>" by simp
      have "\<forall>k \<in> set (sockets (close s' ?w1)). sid k = s \<longrightarrow> readyState k = CLOSING"
        using c1 by (rule close_keeps_closing)
      with st a1 show ?thesis unfolding r' by (simp add: close_keeps)
    qed
  qed
qed

end
